theory Spec2Isabelle
  imports Complex_Main "HOL-Library.Word" "HOL-Library.Multiset"
begin


section \<open>Data model\<close>

text \<open>
  The repository holds two versions of the input component: the enhanced component
  (debounced search, click-to-add, result limit, error state) and the original component
  it grew out of (\<open>src/AdvancedRefArray.tsx\<close>: \<open>searchForItems\<close>, \<open>addReferences\<close>).
  Both are embedded; the original component's functions carry the prefix \<open>orig_\<close>.

  A reference is the TypeScript interface \<open>Reference\<close>; the optional \<open>_weak\<close> is an
  option. Identifiers (\<open>_ref\<close>, \<open>_id\<close>, \<open>_key\<close>) are only compared for equality and
  tested for emptiness, so they are plain strings.
\<close>

record reference =
  r_type :: string
  r_key :: string
  r_ref :: string
  r_weak :: "bool option"

text \<open>
  A search result is a whole document of the store (the query has no projection): its
  \<open>_id\<close>, \<open>_type\<close> and \<open>title\<close> are the fields the components read.
\<close>

record search_result =
  sr_id :: string
  sr_type :: string
  sr_title :: string

text \<open>
  The search text is tested with \<open>String.prototype.trim\<close>, which works on UTF-16 code
  units, so it is a list of 16-bit words.
\<close>

type_synonym jstext = "16 word list"

text \<open>The patches handed to \<open>onChange\<close>: \<open>set(list)\<close> and \<open>unset()\<close>.\<close>

datatype patch = Set_patch "reference list" | Unset_patch

text \<open>An awaited call either throws (the promise rejects) or returns.\<close>

datatype 'a outcome = Threw | Returned 'a

text \<open>The \<open>useState\<close> cells of the enhanced component.\<close>

record ui_state =
  dangerMode :: bool
  findValue :: jstext
  findData :: "search_result list"
  isSearching :: bool
  sortMode :: bool
  sortDataType :: string
  sortDataList :: "string list"
  alreadySorted :: bool
  isSorting :: bool
  error :: "string option"

text \<open>
  The configuration props of the enhanced component that the modelled functions read.
  Each is optional; the destructuring in the component supplies the default. The limit
  is a JavaScript number that nothing validates: it is an integer here, of either sign.
\<close>

record props =
  p_filterExisting :: "bool option"
  p_maxSearchResults :: "int option"

definition filterExisting :: "props \<Rightarrow> bool" where
  "filterExisting p = (case p_filterExisting p of None \<Rightarrow> True | Some b \<Rightarrow> b)"

definition maxSearchResults :: "props \<Rightarrow> int" where
  "maxSearchResults p = (case p_maxSearchResults p of None \<Rightarrow> 50 | Some n \<Rightarrow> n)"

text \<open>
  \<open>value?.length ? [...value] : []\<close>: the prop \<open>value\<close> may be undefined; an undefined and
  an empty value both give the empty list.
\<close>

definition value_list :: "reference list option \<Rightarrow> reference list" where
  "value_list v = (case v of None \<Rightarrow> [] | Some rs \<Rightarrow> rs)"

text \<open>The host applies a patch to the field: \<open>set\<close> replaces the list, \<open>unset\<close> removes it.\<close>

fun apply_patch :: "patch option \<Rightarrow> reference list option \<Rightarrow> reference list option" where
  "apply_patch None v = v"
| "apply_patch (Some (Set_patch rs)) v = Some rs"
| "apply_patch (Some Unset_patch) v = None"

section \<open>Adding references\<close>

text \<open>
  \<open>Math.random().toString(36).substr(2, 9)\<close> is an oracle: \<open>rnd k\<close> is the string the
  \<open>k\<close>-th evaluation of that expression yields, and every function that evaluates it
  takes the number of evaluations so far and returns the new count.
\<close>

type_synonym keygen = "nat \<Rightarrow> string"

definition new_reference :: "string \<Rightarrow> search_result \<Rightarrow> reference" where
  "new_reference k item =
     \<lparr>r_type = ''reference'', r_key = k, r_ref = sr_id item, r_weak = Some True\<rparr>"

text \<open>\<open>Array.prototype.findIndex\<close>: the first index whose element satisfies the predicate, or -1.\<close>

fun findIndex :: "('a \<Rightarrow> bool) \<Rightarrow> 'a list \<Rightarrow> int" where
  "findIndex P [] = - 1"
| "findIndex P (x # xs) =
     (if P x then 0 else (let i = findIndex P xs in if i < 0 then - 1 else i + 1))"

text \<open>
  \<open>xs.filter((ref, index, self) => self.findIndex((t) => t._ref === ref._ref) === index)\<close>
\<close>

definition dedupe_by_ref :: "reference list \<Rightarrow> reference list" where
  "dedupe_by_ref xs =
     map snd (filter (\<lambda>(index, ref). findIndex (\<lambda>t. r_ref t = r_ref ref) xs = int index)
       (enumerate 0 xs))"

text \<open>
  \<open>addAllReferences\<close> of the enhanced component. The result is the patch passed to
  \<open>onChange\<close> (if any), the new count of key generations, and the new state.
\<close>

definition addAllReferences ::
  "keygen \<Rightarrow> nat \<Rightarrow> reference list option \<Rightarrow> ui_state \<Rightarrow> patch option \<times> nat \<times> ui_state" where
  "addAllReferences rnd n val st =
     (if findData st = [] then (None, n, st)
      else
        let newValues = value_list val;
            newReferences = map (\<lambda>(i, item). new_reference (rnd (n + i)) item)
                              (enumerate 0 (findData st));
            newValues = newValues @ newReferences;
            newValues = dedupe_by_ref newValues
        in (Some (Set_patch newValues), n + length (findData st), st\<lparr>findValue := []\<rparr>))"

text \<open>\<open>addSingleReference\<close> of the enhanced component.\<close>

definition addSingleReference ::
  "keygen \<Rightarrow> nat \<Rightarrow> search_result \<Rightarrow> reference list option \<Rightarrow> ui_state
     \<Rightarrow> patch option \<times> nat \<times> ui_state" where
  "addSingleReference rnd n item val st =
     (if sr_id item = [] then (None, n, st)
      else
        let newValues = value_list val;
            exists = (\<exists>v \<in> set newValues. r_ref v = sr_id item)
        in if exists then (None, n, st)
           else
             let newReference = new_reference (rnd n) item;
                 newValues = newValues @ [newReference]
             in (Some (Set_patch newValues), Suc n,
                 st\<lparr>findData := filter (\<lambda>searchItem. sr_id searchItem \<noteq> sr_id item) (findData st)\<rparr>))"

text \<open>
  \<open>addReferences\<close> of the original component: it commits also when there are no search
  results. Its result is the patch, the new count of key generations and the new search text.
\<close>

definition orig_addReferences ::
  "keygen \<Rightarrow> nat \<Rightarrow> search_result list \<Rightarrow> reference list option \<Rightarrow> patch \<times> nat \<times> jstext" where
  "orig_addReferences rnd n found val =
     (let newValues = value_list val;
          newValues = (if found \<noteq> []
                       then newValues @ map (\<lambda>(i, item). new_reference (rnd (n + i)) item)
                                          (enumerate 0 found)
                       else newValues);
          newValues = dedupe_by_ref newValues
      in (Set_patch newValues, (if found \<noteq> [] then n + length found else n), []))"

text \<open>
  A sequence of add operations: a bulk add of the results on display, or a click on one
  result. The world is the field value as the host holds it, the count of key generations
  and the component state.
\<close>

datatype add_action = AddAll "search_result list" | AddSingle search_result

record world =
  w_value :: "reference list option"
  w_calls :: nat
  w_ui :: ui_state

fun add_step :: "keygen \<Rightarrow> world \<Rightarrow> add_action \<Rightarrow> world" where
  "add_step rnd w (AddAll shown) =
     (case addAllReferences rnd (w_calls w) (w_value w) ((w_ui w)\<lparr>findData := shown\<rparr>) of
        (p, n, st) \<Rightarrow> \<lparr>w_value = apply_patch p (w_value w), w_calls = n, w_ui = st\<rparr>)"
| "add_step rnd w (AddSingle item) =
     (case addSingleReference rnd (w_calls w) item (w_value w) (w_ui w) of
        (p, n, st) \<Rightarrow> \<lparr>w_value = apply_patch p (w_value w), w_calls = n, w_ui = st\<rparr>)"

definition run_adds :: "keygen \<Rightarrow> add_action list \<Rightarrow> world \<Rightarrow> world" where
  "run_adds rnd acts w = foldl (add_step rnd) w acts"

text \<open>The ids an action supplies: a click on a result without an id is ignored.\<close>

fun supplied :: "add_action \<Rightarrow> string list" where
  "supplied (AddAll shown) = map sr_id shown"
| "supplied (AddSingle item) = (if sr_id item = [] then [] else [sr_id item])"

text \<open>The first occurrence of every id of a list, in order.\<close>

fun first_occurrences :: "string list \<Rightarrow> string list" where
  "first_occurrences [] = []"
| "first_occurrences (x # xs) = x # filter (\<lambda>y. y \<noteq> x) (first_occurrences xs)"

text \<open>
  The references of a list that are the first with their \<open>_ref\<close>, given the set of
  \<open>_ref\<close>s already seen: what \<open>dedupe_by_ref\<close> computes, by recursion.
\<close>

fun keep_first :: "string set \<Rightarrow> reference list \<Rightarrow> reference list" where
  "keep_first S [] = []"
| "keep_first S (x # xs) =
     (if r_ref x \<in> S then keep_first S xs else x # keep_first (insert (r_ref x) S) xs)"

section \<open>Searching\<close>

text \<open>
  \<open>String.prototype.trim\<close> removes the ECMAScript white space and line terminator code
  units from both ends: TAB, LF, VT, FF, CR, SP, NBSP, U+1680, U+2000 to U+200A, LS, PS,
  U+202F, U+205F, U+3000 and the byte order mark U+FEFF.
\<close>

definition is_white_space :: "16 word \<Rightarrow> bool" where
  "is_white_space c \<longleftrightarrow>
     c = 0x9 \<or> c = 0xA \<or> c = 0xB \<or> c = 0xC \<or> c = 0xD \<or> c = 0x20 \<or> c = 0xA0 \<or> c = 0x1680
     \<or> (0x2000 \<le> c \<and> c \<le> 0x200A) \<or> c = 0x2028 \<or> c = 0x2029 \<or> c = 0x202F \<or> c = 0x205F
     \<or> c = 0x3000 \<or> c = 0xFEFF"

definition trim :: "jstext \<Rightarrow> jstext" where
  "trim s = rev (dropWhile is_white_space (rev (dropWhile is_white_space s)))"

text \<open>
  The query is a string. A string literal of the source becomes code units with \<open>js\<close>;
  \<open>dq\<close> is the double quote and \<open>bs\<close> the backslash.
\<close>

definition js :: "string \<Rightarrow> jstext" where
  "js s = map of_char s"

definition dq :: string where
  "dq = [CHR 0x22]"

definition bs :: string where
  "bs = [CHR 0x5C]"

text \<open>
  \<open>JSON.stringify\<close> of an array of strings: the quoted strings, separated by commas, in
  brackets. In a quoted string the double quote, the backslash and the control characters
  are escaped.
\<close>

definition hex_digit :: "nat \<Rightarrow> char" where
  "hex_digit d = ''0123456789abcdef'' ! d"

definition json_escape :: "char \<Rightarrow> string" where
  "json_escape c =
     (let n = (of_char c :: nat)
      in if n = 8 then bs @ ''b''
         else if n = 9 then bs @ ''t''
         else if n = 10 then bs @ ''n''
         else if n = 12 then bs @ ''f''
         else if n = 13 then bs @ ''r''
         else if n = 34 then bs @ dq
         else if n = 92 then bs @ bs
         else if n < 32 then bs @ ''u00'' @ [hex_digit (n div 16), hex_digit (n mod 16)]
         else [c])"

definition json_string :: "string \<Rightarrow> string" where
  "json_string s = dq @ concat (map json_escape s) @ dq"

fun comma_separated :: "string list \<Rightarrow> string" where
  "comma_separated [] = []"
| "comma_separated [x] = x"
| "comma_separated (x # y # ys) = x @ '','' @ comma_separated (y # ys)"

definition json_stringify :: "string list \<Rightarrow> string" where
  "json_stringify xs = ''['' @ comma_separated (map json_string xs) @ '']''"

text \<open>The decimal text of an integer, as a template literal inserts it.\<close>

function digits :: "nat \<Rightarrow> string" where
  "digits n =
     (if n < 10 then [''0123456789'' ! n] else digits (n div 10) @ [''0123456789'' ! (n mod 10)])"
  by pat_completeness auto
termination
  by (relation "measure id") auto

declare digits.simps [simp del]

definition number_text :: "int \<Rightarrow> string" where
  "number_text i = (if i < 0 then ''-'' @ digits (nat (- i)) else digits (nat i))"

text \<open>
  The query of the original component,
  \<open>*[_type in ${JSON.stringify(schemaTypes)} && title match "${findValue}*"]\<close>,
  and the query of the enhanced component, which is the same text followed by the slice
  \<open>[0...${maxSearchResults}]\<close>. The search text is inserted as it is.
\<close>

definition orig_search_query :: "string list \<Rightarrow> jstext \<Rightarrow> jstext" where
  "orig_search_query schemaTypes findValue' =
     js (''*[_type in '' @ json_stringify schemaTypes @ '' && title match '' @ dq)
     @ findValue' @ js (''*'' @ dq @ '']'')"

definition search_query :: "string list \<Rightarrow> jstext \<Rightarrow> int \<Rightarrow> jstext" where
  "search_query schemaTypes searchValue limit =
     js (''*[_type in '' @ json_stringify schemaTypes @ '' && title match '' @ dq)
     @ searchValue @ js (''*'' @ dq @ ''][0...'' @ number_text limit @ '']'')"

text \<open>
  The document store is outside the repository: \<open>client.fetch\<close> is a parameter, a
  function from the query text to the documents it returns, or to a failure.

  \<open>search_settle\<close> is the part of \<open>searchForItems\<close> that runs when the fetch has
  answered. \<open>val\<close> is the prop \<open>value\<close> that the callback captured when it was created;
  \<open>st\<close> is the state at the time of the answer.
\<close>

definition search_settle ::
  "props \<Rightarrow> reference list option \<Rightarrow> search_result list outcome \<Rightarrow> ui_state \<Rightarrow> ui_state" where
  "search_settle p val answer st =
     (case answer of
        Returned items \<Rightarrow>
          let filteredItems =
                (if filterExisting p \<and> value_list val \<noteq> []
                 then filter (\<lambda>item. \<not> (\<exists>ref \<in> set (value_list val). r_ref ref = sr_id item)) items
                 else items)
          in st\<lparr>findData := filteredItems, isSearching := False\<rparr>
      | Threw \<Rightarrow>
          st\<lparr>error := Some ''Failed to search items. Please try again.'',
             findData := [], isSearching := False\<rparr>)"

text \<open>
  \<open>searchForItems\<close> of the enhanced component, when nothing else happens while the
  store works. The result is the list of queries sent (none or one) and the new state.
\<close>

definition searchForItems ::
  "props \<Rightarrow> string list \<Rightarrow> reference list option \<Rightarrow> (jstext \<Rightarrow> search_result list outcome)
     \<Rightarrow> jstext \<Rightarrow> ui_state \<Rightarrow> jstext list \<times> ui_state" where
  "searchForItems p schemaTypes val client searchValue st =
     (if trim searchValue = [] \<or> schemaTypes = [] then ([], st\<lparr>findData := []\<rparr>)
      else
        let st = st\<lparr>isSearching := True, error := None\<rparr>;
            q = search_query schemaTypes searchValue (maxSearchResults p)
        in ([q], search_settle p val (client q) st))"

text \<open>
  The same search, with a click on a result of the display while the store works: the
  search starts, \<open>addSingleReference\<close> runs in the same render (it sees the same
  \<open>value\<close>), the host takes the patch, and then the answer of the store arrives at the
  callback that started the search. The result is the field value and the state.
\<close>

definition search_with_click ::
  "keygen \<Rightarrow> nat \<Rightarrow> props \<Rightarrow> string list \<Rightarrow> reference list option
     \<Rightarrow> (jstext \<Rightarrow> search_result list outcome) \<Rightarrow> jstext \<Rightarrow> search_result \<Rightarrow> ui_state
     \<Rightarrow> reference list option \<times> ui_state" where
  "search_with_click rnd n p schemaTypes val client searchValue item st =
     (if trim searchValue = [] \<or> schemaTypes = []
      then (case addSingleReference rnd n item val (st\<lparr>findData := []\<rparr>) of
              (patch, n', st') \<Rightarrow> (apply_patch patch val, st'))
      else
        let st = st\<lparr>isSearching := True, error := None\<rparr>;
            q = search_query schemaTypes searchValue (maxSearchResults p)
        in case addSingleReference rnd n item val st of
             (patch, n', st') \<Rightarrow> (apply_patch patch val, search_settle p val (client q) st'))"

text \<open>
  \<open>searchForItems\<close> of the original component: it reads the state \<open>findValue\<close>, tests it
  against the empty string only, and has no \<open>catch\<close>: when the fetch throws, the search
  results are not updated. The result is the list of queries sent and the new search
  results, if they are set.
\<close>

definition orig_searchForItems ::
  "string list \<Rightarrow> (jstext \<Rightarrow> search_result list outcome) \<Rightarrow> jstext
     \<Rightarrow> jstext list \<times> search_result list option" where
  "orig_searchForItems schemaTypes client findValue' =
     (if findValue' \<noteq> [] \<and> schemaTypes \<noteq> []
      then
        let q = orig_search_query schemaTypes findValue'
        in case client q of
             Returned items \<Rightarrow> ([q], Some items)
           | Threw \<Rightarrow> ([q], None)
      else ([], Some []))"

section \<open>Sorting\<close>

text \<open>
  The expanded documents are JSON objects: lists of key and value, in the order of the
  keys. A field value is a JSON scalar; \<open>JNull\<close> stands for \<open>null\<close> and for an absent
  field (\<open>undefined\<close>), which the comparators do not tell apart (\<open>aValue == null\<close>).
  Numbers are the rationals that the finite doubles of JSON denote.
\<close>

datatype jsval = JNull | JBool bool | JNum rat | JStr string

type_synonym doc = "(string \<times> jsval) list"

definition get_field :: "doc \<Rightarrow> string \<Rightarrow> jsval" where
  "get_field d k = (case map_of d k of None \<Rightarrow> JNull | Some v \<Rightarrow> v)"

text \<open>
  What the comparators take from the JavaScript engine: \<open>String.prototype.localeCompare\<close>,
  and the result of \<open>a < b\<close> on two values that are not two numbers or two booleans (where
  ECMAScript converts the operands).
\<close>

record js_env =
  localeCompare :: "string \<Rightarrow> string \<Rightarrow> int"
  coerced_less :: "jsval \<Rightarrow> jsval \<Rightarrow> bool"

fun js_less :: "js_env \<Rightarrow> jsval \<Rightarrow> jsval \<Rightarrow> bool" where
  "js_less env (JNum x) (JNum y) = (x < y)"
| "js_less env (JBool x) (JBool y) = (\<not> x \<and> y)"
| "js_less env a b = coerced_less env a b"

text \<open>The comparator of \<open>checkAlreadySorted\<close>.\<close>

definition check_compare :: "js_env \<Rightarrow> string \<Rightarrow> doc \<Rightarrow> doc \<Rightarrow> int" where
  "check_compare env sortDataType' a b =
     (let aValue = get_field a sortDataType'; bValue = get_field b sortDataType'
      in if aValue = JNull \<and> bValue = JNull then 0
         else if aValue = JNull then 1
         else if bValue = JNull then - 1
         else case (aValue, bValue) of
                (JStr s, JStr t) \<Rightarrow> localeCompare env s t
              | _ \<Rightarrow> if js_less env aValue bValue then - 1
                     else if js_less env bValue aValue then 1
                     else 0)"

text \<open>The comparator of \<open>sortAllReferences\<close>.\<close>

definition sort_compare :: "js_env \<Rightarrow> string \<Rightarrow> bool \<Rightarrow> doc \<Rightarrow> doc \<Rightarrow> int" where
  "sort_compare env sortDataType' alreadySorted' a b =
     (let aValue = get_field a sortDataType'; bValue = get_field b sortDataType'
      in if aValue = JNull \<and> bValue = JNull then 0
         else if aValue = JNull then 1
         else if bValue = JNull then - 1
         else
           let direction = (if alreadySorted' then - 1 else 1)
           in case (aValue, bValue) of
                (JStr s, JStr t) \<Rightarrow> direction * localeCompare env s t
              | _ \<Rightarrow> if js_less env aValue bValue then direction * - 1
                     else if js_less env bValue aValue then direction * 1
                     else 0)"

text \<open>
  \<open>Array.prototype.sort\<close> is a stable sort: for a consistent comparator its result is
  the one list that is ordered by the comparator and keeps elements that compare equal
  in their order, which is what insertion from the right computes. An element goes
  before the first element that it does not compare greater than.
\<close>

fun insort_cmp :: "('a \<Rightarrow> 'a \<Rightarrow> int) \<Rightarrow> 'a \<Rightarrow> 'a list \<Rightarrow> 'a list" where
  "insort_cmp cmp x [] = [x]"
| "insort_cmp cmp x (y # ys) = (if cmp x y \<le> 0 then x # y # ys else y # insort_cmp cmp x ys)"

definition sort_cmp :: "('a \<Rightarrow> 'a \<Rightarrow> int) \<Rightarrow> 'a list \<Rightarrow> 'a list" where
  "sort_cmp cmp xs = foldr (insort_cmp cmp) xs []"

text \<open>
  A reference whose document is missing expands to \<open>null\<close>, and reading a field of
  \<open>null\<close> throws. In an array of two or more elements every element is handed to the
  comparator at least once, so sorting throws exactly when such an array holds a \<open>null\<close>.
\<close>

definition array_sort :: "(doc \<Rightarrow> doc \<Rightarrow> int) \<Rightarrow> doc option list \<Rightarrow> doc option list outcome" where
  "array_sort cmp xs =
     (if length xs < 2 then Returned xs
      else case those xs of
             None \<Rightarrow> Threw
           | Some ds \<Rightarrow> Returned (map Some (sort_cmp cmp ds)))"

text \<open>
  \<open>getSortData\<close>: \<open>client.fetch\<close> throws, or returns the projection \<open>{"data": field[]->}\<close>
  of the edited document; the result is \<open>null\<close> when there is no such document and
  \<open>data\<close> is \<open>null\<close> when it has no such field (\<open>query?.data || []\<close>).
\<close>

definition getSortData :: "doc option list option outcome \<Rightarrow> doc option list" where
  "getSortData fetched =
     (case fetched of
        Threw \<Rightarrow> []
      | Returned None \<Rightarrow> []
      | Returned (Some ds) \<Rightarrow> ds)"

text \<open>
  \<open>checkAlreadySorted\<close>. It reads \<open>sortDataType\<close> from the closure it was created in,
  so the field is a parameter. \<open>JSON.stringify\<close> of two arrays of JSON values yields the
  same string exactly when the arrays are equal.
\<close>

definition checkAlreadySorted ::
  "js_env \<Rightarrow> string \<Rightarrow> doc option list option outcome \<Rightarrow> ui_state \<Rightarrow> ui_state" where
  "checkAlreadySorted env sortDataType' fetched st =
     (let expandedRefs = getSortData fetched
      in if expandedRefs = [] then st
         else case array_sort (check_compare env sortDataType') expandedRefs of
                Threw \<Rightarrow> st
              | Returned sortedRefs \<Rightarrow> st\<lparr>alreadySorted := (sortedRefs = expandedRefs)\<rparr>)"

text \<open>
  \<open>refMap\<close>: the references by their \<open>_ref\<close>, a later one replacing an earlier one with
  the same \<open>_ref\<close>.
\<close>

definition refMap :: "reference list \<Rightarrow> (string \<rightharpoonup> reference)" where
  "refMap curRefs = foldl (\<lambda>m r. m(r_ref r \<mapsto> r)) Map.empty curRefs"

text \<open>
  \<open>sortedRefs.map(doc => refMap.get(doc._id)).filter(Boolean)\<close>: reading \<open>_id\<close> of a
  \<open>null\<close> document throws; a document whose \<open>_id\<close> has no reference is dropped.
\<close>

fun organize :: "(string \<rightharpoonup> reference) \<Rightarrow> doc option list \<Rightarrow> reference list outcome" where
  "organize m [] = Returned []"
| "organize m (None # ds) = Threw"
| "organize m (Some d # ds) =
     (case organize m ds of
        Threw \<Rightarrow> Threw
      | Returned rs \<Rightarrow>
          (case get_field d ''_id'' of
             JStr i \<Rightarrow> (case m i of None \<Rightarrow> Returned rs | Some r \<Rightarrow> Returned (r # rs))
           | _ \<Rightarrow> Returned rs))"

text \<open>
  \<open>sortAllReferences\<close>, with the answer of the store to \<open>getSortData\<close> as the parameter
  \<open>fetched\<close>. The result is the patch passed to \<open>onChange\<close> (if any) and the new state.
  The check that is scheduled one second later is \<open>checkAlreadySorted\<close>, run separately.
\<close>

definition sortAllReferences ::
  "js_env \<Rightarrow> reference list option \<Rightarrow> doc option list option outcome \<Rightarrow> ui_state
     \<Rightarrow> patch option \<times> ui_state" where
  "sortAllReferences env val fetched st =
     (if value_list val = [] \<or> sortDataType st = [] then (None, st)
      else
        let st1 = st\<lparr>isSorting := True, error := None\<rparr>;
            failed = st1\<lparr>error := Some ''Failed to sort references. Please try again.'',
                        isSorting := False\<rparr>;
            curRefs = value_list val;
            expandedRefs = getSortData fetched
        in if expandedRefs = []
           then (None, st1\<lparr>error := Some ''No data available for sorting.'', isSorting := False\<rparr>)
           else
             case array_sort (sort_compare env (sortDataType st) (alreadySorted st)) expandedRefs of
               Threw \<Rightarrow> (None, failed)
             | Returned sortedRefs \<Rightarrow>
                 (case organize (refMap curRefs) sortedRefs of
                    Threw \<Rightarrow> (None, failed)
                  | Returned organizedRefs \<Rightarrow>
                      (Some (Set_patch organizedRefs), st1\<lparr>isSorting := False\<rparr>)))"

text \<open>
  An entry made by an add operation from the search results \<open>items\<close>, with the key
  generator at count \<open>n\<close>: its type and weakness are fixed, and its key is the key
  generated for the result it points to.
\<close>

definition fresh_entry :: "keygen \<Rightarrow> nat \<Rightarrow> search_result list \<Rightarrow> reference \<Rightarrow> bool" where
  "fresh_entry rnd n items r \<longleftrightarrow>
     r_type r = ''reference'' \<and> r_weak r = Some True
     \<and> (\<exists>i < length items. r_key r = rnd (n + i) \<and> r_ref r = sr_id (items ! i))"

subsection \<open>The documents behind the references\<close>

text \<open>
  The store maps a document id to its document. \<open>expand\<close> is the projection
  \<open>field[]->\<close> of a reference list: every reference is replaced by its document, or
  by \<open>null\<close> when there is none. \<open>expands_to\<close> says that every reference of the list
  has a document, and that the document carries the id of its reference.
\<close>

definition expand :: "(string \<rightharpoonup> doc) \<Rightarrow> reference list \<Rightarrow> doc option list" where
  "expand store refs = map (\<lambda>r. store (r_ref r)) refs"

definition expands_to :: "(string \<rightharpoonup> doc) \<Rightarrow> reference list \<Rightarrow> doc list \<Rightarrow> bool" where
  "expands_to store refs docs \<longleftrightarrow>
     expand store refs = map Some docs
     \<and> map (\<lambda>d. get_field d ''_id'') docs = map (\<lambda>r. JStr (r_ref r)) refs"

text \<open>
  The sort button is on the page when the search text is empty, the list is not empty,
  the danger mode is off and the sort mode is on; it is disabled while a sort runs and
  while no field is selected. \<open>sortAllReferences\<close> is the click handler of this button
  and has no other caller.
\<close>

definition sort_button_enabled :: "reference list option \<Rightarrow> ui_state \<Rightarrow> bool" where
  "sort_button_enabled val st \<longleftrightarrow>
     (findValue st = [] \<and> value_list val \<noteq> []) \<and> \<not> dangerMode st \<and> sortMode st
     \<and> \<not> (isSorting st \<or> sortDataType st = [])"


subsection \<open>Orders\<close>

text \<open>
  A comparator is consistent on a set of elements, in the sense of ECMAScript, when
  \<open>a\<close> compares less than \<open>b\<close> exactly when \<open>b\<close> compares greater than \<open>a\<close>, and
  "not greater" is transitive. Only then does the language fix the result of a sort.
\<close>

definition consistent_on :: "'a set \<Rightarrow> ('a \<Rightarrow> 'a \<Rightarrow> int) \<Rightarrow> bool" where
  "consistent_on A cmp \<longleftrightarrow>
     (\<forall>a\<in>A. \<forall>b\<in>A. (cmp a b < 0) = (0 < cmp b a))
     \<and> (\<forall>a\<in>A. \<forall>b\<in>A. \<forall>c\<in>A. cmp a b \<le> 0 \<and> cmp b c \<le> 0 \<longrightarrow> cmp a c \<le> 0)"

text \<open>
  A list of documents is ascending by a field when no document compares greater than a
  later one, under the comparator without direction. It is descending when, for every
  document and every later one, the later one lacks the field, or both have it and the
  later one does not compare greater than the earlier one: documents without the field
  are last in both orders.
\<close>

definition ascending_by :: "js_env \<Rightarrow> string \<Rightarrow> doc list \<Rightarrow> bool" where
  "ascending_by env f ds \<longleftrightarrow> sorted_wrt (\<lambda>a b. check_compare env f a b \<le> 0) ds"

definition descending_by :: "js_env \<Rightarrow> string \<Rightarrow> doc list \<Rightarrow> bool" where
  "descending_by env f ds \<longleftrightarrow>
     sorted_wrt (\<lambda>a b. get_field b f = JNull
                      \<or> (get_field a f \<noteq> JNull \<and> check_compare env f b a \<le> 0)) ds"

text \<open>
  Two documents are in the order that puts missing fields last unless the first lacks
  the field and the second has it; a list has its missing fields last when this holds
  for every document and every later one.
\<close>

definition trails :: "string \<Rightarrow> doc \<Rightarrow> doc \<Rightarrow> bool" where
  "trails f a b \<longleftrightarrow> \<not> (get_field a f = JNull \<and> get_field b f \<noteq> JNull)"

definition missing_last :: "string \<Rightarrow> doc list \<Rightarrow> bool" where
  "missing_last f ds \<longleftrightarrow> sorted_wrt (trails f) ds"

section \<open>Sample data\<close>

text \<open>Concrete references, search results, states and key generators for the examples.\<close>

definition ref_of :: "string \<Rightarrow> string \<Rightarrow> reference" where
  "ref_of k i = \<lparr>r_type = ''reference'', r_key = k, r_ref = i, r_weak = Some True\<rparr>"

definition result_of :: "string \<Rightarrow> string \<Rightarrow> search_result" where
  "result_of i t = \<lparr>sr_id = i, sr_type = ''product'', sr_title = t\<rparr>"

definition idle :: ui_state where
  "idle = \<lparr>dangerMode = False, findValue = [], findData = [], isSearching = False,
           sortMode = False, sortDataType = [], sortDataList = [], alreadySorted = False,
           isSorting = False, error = None\<rparr>"

text \<open>A key generator whose keys differ, and one that yields the same key every time.\<close>

definition count_keys :: keygen where
  "count_keys k = replicate (Suc k) CHR ''k''"

definition stuck_keys :: keygen where
  "stuck_keys k = ''i''"

text \<open>Two products, and a store that answers every query with them.\<close>

definition catalogue :: "search_result list" where
  "catalogue = [result_of ''p2'' ''Widget'', result_of ''p3'' ''Widgetron'']"

definition catalogue_store :: "jstext \<Rightarrow> search_result list outcome" where
  "catalogue_store q = Returned catalogue"



text \<open>The search text \<open>wid\<close>, and the state that shows \<open>p3\<close> as its result.\<close>

definition wid :: jstext where
  "wid = js ''wid''"

definition showing_p3 :: ui_state where
  "showing_p3 = idle\<lparr>findValue := wid, findData := [result_of ''p3'' ''Widgetron'']\<rparr>"

text \<open>
  An engine whose \<open>localeCompare\<close> orders strings by their characters, and whose \<open><\<close>
  is false on operands it would have to convert.
\<close>

fun ordinal_compare :: "string \<Rightarrow> string \<Rightarrow> int" where
  "ordinal_compare [] [] = 0"
| "ordinal_compare [] (y # ys) = - 1"
| "ordinal_compare (x # xs) [] = 1"
| "ordinal_compare (x # xs) (y # ys) =
     (if (of_char x :: nat) < of_char y then - 1
      else if (of_char y :: nat) < of_char x then 1
      else ordinal_compare xs ys)"

definition never_less :: "jsval \<Rightarrow> jsval \<Rightarrow> bool" where
  "never_less a b = False"

definition plain_env :: js_env where
  "plain_env = \<lparr>localeCompare = ordinal_compare, coerced_less = never_less\<rparr>"

text \<open>Three products with a price, one of them without, and their references.\<close>

definition doc_a :: doc where
  "doc_a = [(''_id'', JStr ''a''), (''price'', JNum 30)]"

definition doc_b :: doc where
  "doc_b = [(''_id'', JStr ''b''), (''price'', JNum 10)]"

definition doc_c :: doc where
  "doc_c = [(''_id'', JStr ''c''), (''price'', JNull)]"

definition products :: "string \<rightharpoonup> doc" where
  "products = [''a'' \<mapsto> doc_a, ''b'' \<mapsto> doc_b, ''c'' \<mapsto> doc_c]"

definition by_price :: ui_state where
  "by_price = idle\<lparr>sortMode := True, sortDataType := ''price'', sortDataList := [''price'']\<rparr>"

definition doc_d :: doc where
  "doc_d = [(''_id'', JStr ''d''), (''price'', JNum 20)]"

definition more_products :: "string \<rightharpoonup> doc" where
  "more_products = [''a'' \<mapsto> doc_a, ''b'' \<mapsto> doc_b, ''d'' \<mapsto> doc_d]"

section \<open>Properties of the add operations\<close>

subsection \<open>Removing duplicates\<close>

lemma findIndex_ge: "findIndex P xs \<ge> - 1"
  by (induction xs) (auto simp: Let_def)

lemma findIndex_none: "(findIndex P xs < 0) = (\<forall>x\<in>set xs. \<not> P x)"
  using findIndex_ge[of P] by (induction xs) (auto simp: Let_def)

lemma findIndex_append:
  "findIndex P (ps @ xs) =
     (if \<exists>x\<in>set ps. P x then findIndex P ps
      else if findIndex P xs < 0 then - 1 else int (length ps) + findIndex P xs)"
proof (induction ps)
  case Nil
  show ?case using findIndex_ge[of P xs] by auto
next
  case (Cons p ps)
  show ?case using Cons findIndex_ge[of P xs] findIndex_none[of P xs] findIndex_none[of P ps]
    by (auto simp: Let_def)
qed

lemma findIndex_lt: "(\<exists>x\<in>set ps. P x) \<Longrightarrow> findIndex P ps < int (length ps)"
  by (induction ps) (auto simp: Let_def findIndex_none)

lemma dedupe_aux:
  "map snd (filter (\<lambda>(index, ref). findIndex (\<lambda>t. r_ref t = r_ref ref) (ps @ xs) = int index)
       (enumerate (length ps) xs)) = keep_first (r_ref ` set ps) xs"
proof (induction xs arbitrary: ps)
  case Nil
  show ?case by simp
next
  case (Cons x xs)
  have IH: "map snd (filter (\<lambda>(index, ref). findIndex (\<lambda>t. r_ref t = r_ref ref) (ps @ x # xs) = int index)
       (enumerate (Suc (length ps)) xs)) = keep_first (insert (r_ref x) (r_ref ` set ps)) xs"
    using Cons[of "ps @ [x]"] by simp
  have hd: "(findIndex (\<lambda>t. r_ref t = r_ref x) (ps @ x # xs) = int (length ps)) = (r_ref x \<notin> r_ref ` set ps)"
  proof (cases "\<exists>t\<in>set ps. r_ref t = r_ref x")
    case True
    then have "findIndex (\<lambda>t. r_ref t = r_ref x) ps < int (length ps)" by (rule findIndex_lt)
    moreover from True have "r_ref x \<in> r_ref ` set ps" by (metis imageI)
    ultimately show ?thesis using True by (simp add: findIndex_append)
  next
    case False
    then have "r_ref x \<notin> r_ref ` set ps" by (metis imageE)
    with False show ?thesis by (simp add: findIndex_append)
  qed
  show ?case
  proof (cases "r_ref x \<in> r_ref ` set ps")
    case True
    then have "insert (r_ref x) (r_ref ` set ps) = r_ref ` set ps" by auto
    with True IH hd show ?thesis by (simp add: enumerate_simps)
  next
    case False
    with IH hd show ?thesis by (simp add: enumerate_simps)
  qed
qed

lemma dedupe_keep_first: "dedupe_by_ref xs = keep_first {} xs"
  using dedupe_aux[of "[]" xs] by (simp add: dedupe_by_ref_def)

lemma keep_first_append:
  "keep_first S (xs @ ys) = keep_first S xs @ keep_first (S \<union> r_ref ` set xs) ys"
  by (induction xs arbitrary: S) (auto simp: insert_absorb)

lemma keep_first_notin: "r \<in> set (keep_first S xs) \<Longrightarrow> r_ref r \<notin> S \<and> r \<in> set xs"
  by (induction xs arbitrary: S) (auto split: if_splits)

lemma keep_first_distinct: "distinct (map r_ref (keep_first S xs))"
  by (induction xs arbitrary: S) (auto dest: keep_first_notin)

lemma keep_first_id: "distinct (map r_ref xs) \<Longrightarrow> r_ref ` set xs \<inter> S = {} \<Longrightarrow> keep_first S xs = xs"
  by (induction xs arbitrary: S) auto

lemma keep_first_refs:
  "map r_ref (keep_first S xs) = filter (\<lambda>y. y \<notin> S) (first_occurrences (map r_ref xs))"
proof (induction xs arbitrary: S)
  case Nil show ?case by simp
next
  case (Cons x xs)
  have "filter (\<lambda>y. y \<notin> insert (r_ref x) S) (first_occurrences (map r_ref xs))
      = filter (\<lambda>y. y \<notin> S) (filter (\<lambda>y. y \<noteq> r_ref x) (first_occurrences (map r_ref xs)))"
    by (auto intro: filter_cong)
  moreover have "r_ref x \<in> S \<Longrightarrow> filter (\<lambda>y. y \<notin> S) (filter (\<lambda>y. y \<noteq> r_ref x) (first_occurrences (map r_ref xs))) = filter (\<lambda>y. y \<notin> S) (first_occurrences (map r_ref xs))"
    by (auto intro: filter_cong)
  ultimately show ?case using Cons by auto
qed

lemma set_first_occurrences: "set (first_occurrences xs) = set xs"
  by (induction xs) auto

lemma distinct_first_occurrences: "distinct (first_occurrences xs)"
  by (induction xs) (auto simp: set_first_occurrences)

lemma first_occurrences_append:
  "first_occurrences (xs @ ys) = first_occurrences xs @ filter (\<lambda>y. y \<notin> set xs) (first_occurrences ys)"
proof (induction xs)
  case Nil show ?case by simp
next
  case (Cons x xs)
  have "filter (\<lambda>y. y \<noteq> x) (first_occurrences xs @ filter (\<lambda>y. y \<notin> set xs) (first_occurrences ys))
      = filter (\<lambda>y. y \<noteq> x) (first_occurrences xs) @ filter (\<lambda>y. y \<notin> set (x # xs)) (first_occurrences ys)"
    by (auto intro: filter_cong)
  with Cons show ?case by simp
qed

lemma first_occurrences_distinct: "distinct xs \<Longrightarrow> first_occurrences xs = xs"
  by (induction xs) (auto simp: filter_id_conv)

lemma first_occurrences_idem: "first_occurrences (first_occurrences xs) = first_occurrences xs"
  by (simp add: first_occurrences_distinct distinct_first_occurrences)

lemma first_occurrences_absorb:
  "first_occurrences (first_occurrences xs @ ys) = first_occurrences (xs @ ys)"
  by (simp add: first_occurrences_append first_occurrences_idem set_first_occurrences)

lemma new_refs_map:
  "map r_ref (map (\<lambda>(i, item). new_reference (rnd (n + i)) item) (enumerate k shown)) = map sr_id shown"
  by (induction shown arbitrary: k) (auto simp: new_reference_def)

lemma add_step_value:
  assumes "distinct (map r_ref (value_list (w_value w)))"
  shows "\<exists>new. value_list (w_value (add_step rnd w a)) = value_list (w_value w) @ new
           \<and> map r_ref new = filter (\<lambda>y. y \<notin> set (map r_ref (value_list (w_value w))))
                                (first_occurrences (supplied a))"
proof (cases a)
  case (AddAll shown)
  let ?old = "value_list (w_value w)"
  let ?nr = "map (\<lambda>(i, item). new_reference (rnd (w_calls w + i)) item) (enumerate 0 shown)"
  show ?thesis
  proof (cases "shown = []")
    case True
    with AddAll show ?thesis by (simp add: addAllReferences_def)
  next
    case False
    have "dedupe_by_ref (?old @ ?nr) = ?old @ keep_first (r_ref ` set ?old) ?nr"
      using assms by (simp add: dedupe_keep_first keep_first_append keep_first_id)
    moreover have "map r_ref (keep_first (r_ref ` set ?old) ?nr)
        = filter (\<lambda>y. y \<notin> set (map r_ref ?old)) (first_occurrences (map sr_id shown))"
      unfolding keep_first_refs new_refs_map by simp
    ultimately show ?thesis using AddAll False
      by (simp add: addAllReferences_def Let_def value_list_def)
  qed
next
  case (AddSingle item)
  let ?old = "value_list (w_value w)"
  consider "sr_id item = []" | "sr_id item \<noteq> []" "sr_id item \<in> r_ref ` set ?old"
    | "sr_id item \<noteq> []" "sr_id item \<notin> r_ref ` set ?old" by blast
  then show ?thesis
  proof cases
    case 1
    with AddSingle show ?thesis by (simp add: addSingleReference_def)
  next
    case 2
    then have "\<exists>v\<in>set ?old. r_ref v = sr_id item" by (metis imageE)
    with 2 AddSingle show ?thesis by (simp add: addSingleReference_def Let_def)
  next
    case 3
    then have "\<not> (\<exists>v\<in>set ?old. r_ref v = sr_id item)" by (metis imageI)
    moreover have "value_list (Some (?old @ [new_reference (rnd (w_calls w)) item])) = ?old @ [new_reference (rnd (w_calls w)) item]"
      by (simp add: value_list_def)
    ultimately show ?thesis using 3 AddSingle
      by (simp add: addSingleReference_def Let_def new_reference_def)
  qed
qed

lemma add_step_refs:
  assumes "distinct (map r_ref (value_list (w_value w)))"
  shows "map r_ref (value_list (w_value (add_step rnd w a)))
           = first_occurrences (map r_ref (value_list (w_value w)) @ supplied a)"
  using add_step_value[OF assms, of rnd a] assms
  by (auto simp: first_occurrences_append first_occurrences_distinct)

lemma run_adds_refs:
  assumes "distinct (map r_ref (value_list (w_value w)))"
  shows "map r_ref (value_list (w_value (run_adds rnd acts w)))
           = first_occurrences (map r_ref (value_list (w_value w)) @ concat (map supplied acts))"
  using assms unfolding run_adds_def
proof (induction acts arbitrary: w)
  case Nil
  then show ?case by (simp add: first_occurrences_distinct)
next
  case (Cons a acts)
  have d: "distinct (map r_ref (value_list (w_value (add_step rnd w a))))"
    by (simp add: add_step_refs[OF Cons.prems] distinct_first_occurrences)
  show ?case
    using Cons.IH[OF d] add_step_refs[OF Cons.prems, of rnd a]
    by (simp add: first_occurrences_absorb)
qed

lemma run_adds_prefix:
  assumes "distinct (map r_ref (value_list (w_value w)))"
  shows "take (length (value_list (w_value w))) (value_list (w_value (run_adds rnd acts w)))
           = value_list (w_value w)"
  using assms unfolding run_adds_def
proof (induction acts arbitrary: w)
  case Nil
  then show ?case by simp
next
  case (Cons a acts)
  obtain new where new: "value_list (w_value (add_step rnd w a)) = value_list (w_value w) @ new"
    using add_step_value[OF Cons.prems, of rnd a] by blast
  have d: "distinct (map r_ref (value_list (w_value (add_step rnd w a))))"
    by (simp add: add_step_refs[OF Cons.prems] distinct_first_occurrences)
  let ?fin = "value_list (w_value (foldl (add_step rnd) (add_step rnd w a) acts))"
  have "take (length (value_list (w_value w) @ new)) ?fin = value_list (w_value w) @ new"
    using Cons.IH[OF d] new by simp
  then have "take (length (value_list (w_value w))) (take (length (value_list (w_value w) @ new)) ?fin)
      = value_list (w_value w)" by simp
  then show ?case by (simp add: min_def)
qed

subsection \<open>Sequences of add operations\<close>

text \<open>
  Claim C1, as the code has it. Starting from a reference list in which no two entries
  share a \<open>_ref\<close>, after every sequence of add operations (bulk add of the search
  results, click on one result) no two entries share a \<open>_ref\<close>, the entries that were
  present are all still there, in their places at the front, and the \<open>_ref\<close>s of the
  list are the old ones followed by the first occurrence of every supplied id that was
  not present, in the order supplied.
\<close>

theorem add_sequence_no_duplicates:
  assumes "distinct (map r_ref (value_list (w_value w)))"
  shows "distinct (map r_ref (value_list (w_value (run_adds rnd acts w))))
       \<and> take (length (value_list (w_value w))) (value_list (w_value (run_adds rnd acts w)))
           = value_list (w_value w)
       \<and> map r_ref (value_list (w_value (run_adds rnd acts w)))
           = first_occurrences (map r_ref (value_list (w_value w)) @ concat (map supplied acts))"
  using run_adds_refs[OF assms, of rnd acts] run_adds_prefix[OF assms, of rnd acts]
  by (simp add: distinct_first_occurrences)


text \<open>
  The starting list matters: a click on a result does not touch the entries that are
  already there, so a list that starts with two entries for \<open>p1\<close> still has them
  after \<open>p3\<close> is added.
\<close>

theorem add_single_keeps_duplicates_counterexample:
  "\<not> distinct (map r_ref (value_list (apply_patch
       (fst (addSingleReference count_keys 0 (result_of ''p3'' ''Widgetron'')
               (Some [ref_of ''a'' ''p1'', ref_of ''b'' ''p1'']) idle))
       (Some [ref_of ''a'' ''p1'', ref_of ''b'' ''p1'']))))"
  by (simp add: addSingleReference_def ref_of_def result_of_def value_list_def new_reference_def Let_def)


theorem add_sequence_no_duplicates_witness:
  "distinct (map r_ref [ref_of ''a'' ''p1'', ref_of ''b'' ''p2''])
   \<and> map r_ref (value_list (w_value (run_adds count_keys
        [AddAll [result_of ''p2'' ''Widget'', result_of ''p3'' ''Widgetron''],
         AddSingle (result_of ''p4'' ''Gadget''), AddSingle (result_of ''p3'' ''Widgetron'')]
        \<lparr>w_value = Some [ref_of ''a'' ''p1'', ref_of ''b'' ''p2''], w_calls = 0, w_ui = idle\<rparr>)))
     = [''p1'', ''p2'', ''p3'', ''p4'']"
  using add_sequence_no_duplicates[of "\<lparr>w_value = Some [ref_of ''a'' ''p1'', ref_of ''b'' ''p2''], w_calls = 0, w_ui = idle\<rparr>" count_keys
       "[AddAll [result_of ''p2'' ''Widget'', result_of ''p3'' ''Widgetron''],
         AddSingle (result_of ''p4'' ''Gadget''), AddSingle (result_of ''p3'' ''Widgetron'')]"]
  by (simp add: ref_of_def result_of_def value_list_def)

subsection \<open>The entries an add operation creates\<close>

lemma set_new_refs:
  "r \<in> set (map (\<lambda>(i, item). new_reference (rnd (n + i)) item) (enumerate 0 items))
     \<Longrightarrow> fresh_entry rnd n items r"
  by (auto simp: in_set_enumerate_eq fresh_entry_def new_reference_def)

lemma keys_new_refs:
  "map r_key (map (\<lambda>(i, item). new_reference (rnd (n + i)) item) (enumerate k items))
     = map (\<lambda>i. rnd (n + i)) [k..<k + length items]"
proof -
  have a: "[k..<k + length items] = map fst (enumerate k items)" by simp
  show ?thesis unfolding a
    by (simp add: new_reference_def case_prod_unfold comp_def del: map_fst_enumerate)
qed

lemma distinct_new_keys:
  assumes "inj_on rnd {n..<n + length items}"
  shows "distinct (map r_key (map (\<lambda>(i, item). new_reference (rnd (n + i)) item) (enumerate 0 items)))"
proof -
  have "inj_on (\<lambda>i. rnd (n + i)) {0..<length items}"
  proof (rule inj_onI)
    fix x y
    assume x: "x \<in> {0..<length items}" and y: "y \<in> {0..<length items}"
      and e: "rnd (n + x) = rnd (n + y)"
    from x y have "n + x \<in> {n..<n + length items}" "n + y \<in> {n..<n + length items}" by simp_all
    with assms e have "n + x = n + y" by (rule inj_onD)
    then show "x = y" by simp
  qed
  then show ?thesis unfolding keys_new_refs by (simp add: distinct_map)
qed

lemma keep_first_keys: "distinct (map r_key xs) \<Longrightarrow> distinct (map r_key (keep_first S xs))"
  by (induction xs arbitrary: S) (auto dest: keep_first_notin)

lemma dedupe_append_new:
  "\<exists>new. dedupe_by_ref (old @ map (\<lambda>(i, item). new_reference (rnd (n + i)) item) (enumerate 0 items))
          = dedupe_by_ref old @ new
     \<and> (\<forall>r\<in>set new. fresh_entry rnd n items r)
     \<and> (inj_on rnd {n..<n + length items} \<longrightarrow> distinct (map r_key new))"
proof -
  let ?nr = "map (\<lambda>(i, item). new_reference (rnd (n + i)) item) (enumerate 0 items)"
  let ?new = "keep_first (r_ref ` set old) ?nr"
  have "dedupe_by_ref (old @ ?nr) = dedupe_by_ref old @ ?new"
    by (simp add: dedupe_keep_first keep_first_append)
  moreover have "\<forall>r\<in>set ?new. fresh_entry rnd n items r"
    using keep_first_notin set_new_refs by blast
  moreover have "inj_on rnd {n..<n + length items} \<longrightarrow> distinct (map r_key ?new)"
    using distinct_new_keys keep_first_keys by blast
  ultimately show ?thesis by blast
qed

text \<open>
  Claim C10, as the code has it. Every entry that \<open>addAllReferences\<close>,
  \<open>addSingleReference\<close> or the original \<open>addReferences\<close> appends has \<open>_type\<close>
  \<open>reference\<close>, \<open>_weak\<close> true, and the key generated for its search result; the
  keys of the entries one operation creates are pairwise distinct whenever the key
  generator yields distinct keys for them.
\<close>

theorem created_references_are_weak:
  "(findData st \<noteq> [] \<longrightarrow>
      (\<exists>new. addAllReferences rnd n val st
               = (Some (Set_patch (dedupe_by_ref (value_list val) @ new)),
                  n + length (findData st), st\<lparr>findValue := []\<rparr>)
         \<and> (\<forall>r\<in>set new. fresh_entry rnd n (findData st) r)
         \<and> (inj_on rnd {n..<n + length (findData st)} \<longrightarrow> distinct (map r_key new))))
   \<and> (\<forall>vs. fst (addSingleReference rnd n item val st) = Some (Set_patch vs) \<longrightarrow>
         (\<exists>r. vs = value_list val @ [r] \<and> fresh_entry rnd n [item] r))
   \<and> (\<exists>new. fst (orig_addReferences rnd n found val)
               = Set_patch (dedupe_by_ref (value_list val) @ new)
         \<and> (\<forall>r\<in>set new. fresh_entry rnd n found r)
         \<and> (inj_on rnd {n..<n + length found} \<longrightarrow> distinct (map r_key new)))"
proof (intro conjI impI allI)
  assume "findData st \<noteq> []"
  then show "\<exists>new. addAllReferences rnd n val st
               = (Some (Set_patch (dedupe_by_ref (value_list val) @ new)),
                  n + length (findData st), st\<lparr>findValue := []\<rparr>)
         \<and> (\<forall>r\<in>set new. fresh_entry rnd n (findData st) r)
         \<and> (inj_on rnd {n..<n + length (findData st)} \<longrightarrow> distinct (map r_key new))"
    using dedupe_append_new[of "value_list val" rnd n "findData st"]
    by (auto simp: addAllReferences_def Let_def)
next
  fix vs
  assume "fst (addSingleReference rnd n item val st) = Some (Set_patch vs)"
  then show "\<exists>r. vs = value_list val @ [r] \<and> fresh_entry rnd n [item] r"
    by (auto simp: addSingleReference_def Let_def fresh_entry_def new_reference_def
             split: if_splits)
next
  show "\<exists>new. fst (orig_addReferences rnd n found val)
               = Set_patch (dedupe_by_ref (value_list val) @ new)
         \<and> (\<forall>r\<in>set new. fresh_entry rnd n found r)
         \<and> (inj_on rnd {n..<n + length found} \<longrightarrow> distinct (map r_key new))"
  proof (cases "found = []")
    case True
    then show ?thesis by (simp add: orig_addReferences_def)
  next
    case False
    then show ?thesis
      using dedupe_append_new[of "value_list val" rnd n found]
      by (auto simp: orig_addReferences_def Let_def)
  qed
qed


text \<open>
  Nothing in the code makes the keys distinct: when the generator yields the same string
  twice, two entries of one bulk add carry the same \<open>_key\<close>.
\<close>

theorem created_keys_collide_counterexample:
  "fst (addAllReferences stuck_keys 0 None
         (idle\<lparr>findData := [result_of ''p3'' ''Widgetron'', result_of ''p4'' ''Gadget'']\<rparr>))
     = Some (Set_patch [ref_of ''i'' ''p3'', ref_of ''i'' ''p4''])
   \<and> \<not> distinct (map r_key [ref_of ''i'' ''p3'', ref_of ''i'' ''p4''])"
  by (simp add: addAllReferences_def dedupe_by_ref_def enumerate_simps idle_def result_of_def
      ref_of_def stuck_keys_def value_list_def new_reference_def Let_def)

theorem created_references_are_weak_witness:
  "findData (idle\<lparr>findData := [result_of ''p3'' ''Widgetron'', result_of ''p4'' ''Gadget'']\<rparr>) \<noteq> []
   \<and> inj_on count_keys {0..<0 + 2}
   \<and> (\<exists>new. fst (addAllReferences count_keys 0 (Some [ref_of ''a'' ''p1''])
                 (idle\<lparr>findData := [result_of ''p3'' ''Widgetron'', result_of ''p4'' ''Gadget'']\<rparr>))
               = Some (Set_patch (dedupe_by_ref [ref_of ''a'' ''p1''] @ new))
         \<and> (\<forall>r\<in>set new. r_type r = ''reference'' \<and> r_weak r = Some True)
         \<and> distinct (map r_key new))"
proof -
  let ?st = "idle\<lparr>findData := [result_of ''p3'' ''Widgetron'', result_of ''p4'' ''Gadget'']\<rparr>"
  have inj: "inj_on count_keys {0..<0 + 2}"
    by (auto simp: inj_on_def count_keys_def)
  have ne: "findData ?st \<noteq> []" by simp
  have len: "length (findData ?st) = 2" by simp
  from created_references_are_weak[of ?st count_keys 0 "Some [ref_of ''a'' ''p1'']"] ne
  obtain new where
    "addAllReferences count_keys 0 (Some [ref_of ''a'' ''p1'']) ?st
       = (Some (Set_patch (dedupe_by_ref (value_list (Some [ref_of ''a'' ''p1''])) @ new)),
          0 + length (findData ?st), ?st\<lparr>findValue := []\<rparr>)"
    "\<forall>r\<in>set new. fresh_entry count_keys 0 (findData ?st) r"
    "inj_on count_keys {0..<0 + length (findData ?st)} \<longrightarrow> distinct (map r_key new)"
    by blast
  with inj len have
    "fst (addAllReferences count_keys 0 (Some [ref_of ''a'' ''p1'']) ?st)
       = Some (Set_patch (dedupe_by_ref [ref_of ''a'' ''p1''] @ new))
     \<and> (\<forall>r\<in>set new. r_type r = ''reference'' \<and> r_weak r = Some True)
     \<and> distinct (map r_key new)"
    by (simp add: value_list_def fresh_entry_def)
  with ne inj show ?thesis by blast
qed

section \<open>Properties of the search\<close>

lemma all_dropWhile: "(\<forall>x\<in>set (dropWhile P s). P x) = (\<forall>c\<in>set s. P c)"
  by (induction s) auto

lemma trim_empty_iff: "trim s = [] \<longleftrightarrow> (\<forall>c\<in>set s. is_white_space c)"
  by (simp add: trim_def dropWhile_eq_Nil_conv all_dropWhile)

lemma not_referenced:
  "(\<forall>ref\<in>set refs. r_ref ref \<noteq> sr_id item) = (sr_id item \<notin> r_ref ` set refs)"
  by (metis imageE imageI)

lemma shown_after_settle:
  "findData (search_settle p val answer st) =
     (case answer of
        Threw \<Rightarrow> []
      | Returned items \<Rightarrow>
          if filterExisting p \<and> value_list val \<noteq> []
          then filter (\<lambda>item. sr_id item \<notin> r_ref ` set (value_list val)) items
          else items)"
  by (simp add: search_settle_def Let_def not_referenced split: outcome.splits)

lemma shown_after_search:
  "findData (snd (searchForItems p schemaTypes val client searchValue st)) =
     (if trim searchValue = [] \<or> schemaTypes = [] then []
      else findData (search_settle p val
             (client (search_query schemaTypes searchValue (maxSearchResults p))) st))"
  by (simp add: searchForItems_def Let_def shown_after_settle)

lemma trim_wid: "trim wid \<noteq> []"
  by (simp add: wid_def js_def trim_def is_white_space_def)

text \<open>
  Claim C2, as the code has it. When the option to hide the references already added is
  on (the default), the results put on display when the store answers are the results of
  the store without those whose id is the \<open>_ref\<close> of an entry of the reference list that
  the search callback captured, whatever the state is at that time; for a search during
  which nothing else happens this is the list at the start of the search. For the list
  \<open>[p1, p2]\<close> and the results \<open>[p2 "Widget", p3 "Widgetron"]\<close> the display is \<open>[p3]\<close>.
\<close>

theorem search_hides_existing:
  assumes "filterExisting p"
  shows "(\<forall>item \<in> set (findData (search_settle p val answer st)).
            sr_id item \<notin> r_ref ` set (value_list val))
       \<and> findData (search_settle p val (Returned items) st)
           = filter (\<lambda>item. sr_id item \<notin> r_ref ` set (value_list val)) items
       \<and> (\<forall>item \<in> set (findData (snd (searchForItems p schemaTypes val client searchValue st))).
            sr_id item \<notin> r_ref ` set (value_list val))
       \<and> (trim searchValue \<noteq> [] \<and> schemaTypes \<noteq> [] \<and>
            client (search_query schemaTypes searchValue (maxSearchResults p)) = Returned items
          \<longrightarrow> findData (snd (searchForItems p schemaTypes val client searchValue st))
              = filter (\<lambda>item. sr_id item \<notin> r_ref ` set (value_list val)) items)
       \<and> findData (snd (searchForItems \<lparr>p_filterExisting = None, p_maxSearchResults = None\<rparr>
            [''product''] (Some [ref_of ''a'' ''p1'', ref_of ''b'' ''p2'']) catalogue_store wid st))
           = [result_of ''p3'' ''Widgetron'']"
proof -
  have settle: "findData (search_settle p val (Returned xs) st')
           = filter (\<lambda>item. sr_id item \<notin> r_ref ` set (value_list val)) xs" for xs st'
    using assms by (cases "value_list val = []") (simp_all add: shown_after_settle)
  have drop: "\<forall>item \<in> set (findData (search_settle p val a st')).
            sr_id item \<notin> r_ref ` set (value_list val)" for a st'
  proof (cases a)
    case Threw
    then show ?thesis by (simp add: shown_after_settle)
  next
    case (Returned xs)
    then show ?thesis by (simp add: settle)
  qed
  have whole: "\<forall>item \<in> set (findData (snd (searchForItems p schemaTypes val client searchValue st))).
            sr_id item \<notin> r_ref ` set (value_list val)"
    using drop by (simp add: shown_after_search)
  have exact: "trim searchValue \<noteq> [] \<and> schemaTypes \<noteq> [] \<and>
            client (search_query schemaTypes searchValue (maxSearchResults p)) = Returned items
          \<longrightarrow> findData (snd (searchForItems p schemaTypes val client searchValue st))
              = filter (\<lambda>item. sr_id item \<notin> r_ref ` set (value_list val)) items"
    by (simp add: shown_after_search settle)
  have scenario: "findData (snd (searchForItems \<lparr>p_filterExisting = None, p_maxSearchResults = None\<rparr>
            [''product''] (Some [ref_of ''a'' ''p1'', ref_of ''b'' ''p2'']) catalogue_store wid st))
           = [result_of ''p3'' ''Widgetron'']"
    using trim_wid
    by (simp add: shown_after_search shown_after_settle catalogue_store_def catalogue_def
        filterExisting_def value_list_def ref_of_def result_of_def)
  from settle drop whole exact scenario show ?thesis by blast
qed

theorem search_hides_existing_witness:
  "filterExisting \<lparr>p_filterExisting = None, p_maxSearchResults = None\<rparr>
   \<and> findData (search_settle \<lparr>p_filterExisting = None, p_maxSearchResults = None\<rparr>
        (Some [ref_of ''a'' ''p1'', ref_of ''b'' ''p2'']) (Returned catalogue) idle)
     = [result_of ''p3'' ''Widgetron'']"
proof -
  let ?p = "\<lparr>p_filterExisting = None, p_maxSearchResults = None\<rparr>"
  let ?val = "Some [ref_of ''a'' ''p1'', ref_of ''b'' ''p2'']"
  have f: "filterExisting ?p" by (simp add: filterExisting_def)
  have "findData (search_settle ?p ?val (Returned catalogue) idle)
     = filter (\<lambda>item. sr_id item \<notin> r_ref ` set (value_list ?val)) catalogue"
    by (rule search_hides_existing[OF f, THEN conjunct2, THEN conjunct1])
  then show ?thesis using f
    by (simp add: catalogue_def value_list_def ref_of_def result_of_def)
qed

text \<open>
  The callback keeps the list it was created with and does not read the field again after
  the fetch. A click on \<open>p3\<close> while the store works adds \<open>p3\<close> to the list, and the
  answer that arrives then puts \<open>p3\<close> on display again, until the next search.
\<close>

theorem search_answer_after_click_counterexample:
  "filterExisting \<lparr>p_filterExisting = None, p_maxSearchResults = None\<rparr>
   \<and> fst (search_with_click stuck_keys 0 \<lparr>p_filterExisting = None, p_maxSearchResults = None\<rparr>
        [''product''] (Some [ref_of ''a'' ''p1'', ref_of ''b'' ''p2'']) catalogue_store wid
        (result_of ''p3'' ''Widgetron'') showing_p3)
     = Some [ref_of ''a'' ''p1'', ref_of ''b'' ''p2'', ref_of ''i'' ''p3'']
   \<and> findData (snd (search_with_click stuck_keys 0 \<lparr>p_filterExisting = None, p_maxSearchResults = None\<rparr>
        [''product''] (Some [ref_of ''a'' ''p1'', ref_of ''b'' ''p2'']) catalogue_store wid
        (result_of ''p3'' ''Widgetron'') showing_p3))
     = [result_of ''p3'' ''Widgetron'']
   \<and> sr_id (result_of ''p3'' ''Widgetron'') = r_ref (ref_of ''i'' ''p3'')"
  using trim_wid
  by (simp add: search_with_click_def addSingleReference_def new_reference_def shown_after_settle
      catalogue_store_def catalogue_def filterExisting_def value_list_def ref_of_def result_of_def
      stuck_keys_def showing_p3_def idle_def Let_def)

text \<open>
  Claim C7, as the code has it. In the enhanced component a search text that is empty
  or holds white space only empties the results and sends no query. In the original
  component the empty text does so.
\<close>

theorem blank_search_sends_no_query:
  "((\<forall>c\<in>set searchValue. is_white_space c) \<longrightarrow>
      searchForItems p schemaTypes val client searchValue st = ([], st\<lparr>findData := []\<rparr>))
   \<and> orig_searchForItems schemaTypes client [] = ([], Some [])"
  by (simp add: searchForItems_def orig_searchForItems_def trim_empty_iff)

theorem blank_search_sends_no_query_witness:
  "is_white_space 0x20 \<and> is_white_space 0x9 \<and> is_white_space 0x3000
   \<and> searchForItems \<lparr>p_filterExisting = None, p_maxSearchResults = None\<rparr> [''product'']
        None catalogue_store [0x20, 0x9, 0x3000] idle
      = ([], idle\<lparr>findData := []\<rparr>)"
  using blank_search_sends_no_query[of "[0x20, 0x9, 0x3000]"
          "\<lparr>p_filterExisting = None, p_maxSearchResults = None\<rparr>" "[''product'']" None
          catalogue_store idle]
  by (simp add: is_white_space_def)

text \<open>
  The original component compares the text with the empty string only: a single space
  is sent to the store, and its results are displayed.
\<close>

theorem orig_search_queries_on_blank_counterexample:
  "is_white_space 0x20
   \<and> orig_searchForItems [''product''] catalogue_store [0x20]
      = ([orig_search_query [''product''] [0x20]], Some catalogue)"
  by (simp add: orig_searchForItems_def catalogue_store_def is_white_space_def Let_def)




text \<open>
  The search text goes into the query as it is typed: a double quote in it ends the
  string of the query.
\<close>

lemma search_text_is_inserted_unescaped:
  "search_query [''product''] (js (''a'' @ dq @ ''] //'')) 50
     = js (''*[_type in ['' @ dq @ ''product'' @ dq @ ''] && title match '' @ dq @ ''a'' @ dq
           @ ''] //*'' @ dq @ ''][0...50]'')"
  by (simp add: search_query_def js_def json_stringify_def json_string_def json_escape_def
      number_text_def digits.simps dq_def bs_def Let_def)

section \<open>Properties of the sort\<close>

subsection \<open>Stable insertion sort under a comparator\<close>

lemma mset_insort_cmp: "mset (insort_cmp cmp x ys) = add_mset x (mset ys)"
  by (induction ys) auto

lemma mset_sort_cmp: "mset (sort_cmp cmp xs) = mset xs"
  unfolding sort_cmp_def by (induction xs) (auto simp: mset_insort_cmp)

lemma set_insort_cmp: "set (insort_cmp cmp x ys) = insert x (set ys)"
  by (induction ys) auto

lemma set_sort_cmp: "set (sort_cmp cmp xs) = set xs"
  using mset_sort_cmp[of cmp xs] by (metis set_mset_mset)


lemma sort_cmp_Cons: "sort_cmp cmp (x # xs) = insort_cmp cmp x (sort_cmp cmp xs)"
  by (simp add: sort_cmp_def)

lemma sort_cmp_Nil: "sort_cmp cmp [] = []"
  by (simp add: sort_cmp_def)

lemma consistent_total:
  "consistent_on A cmp \<Longrightarrow> a \<in> A \<Longrightarrow> b \<in> A \<Longrightarrow> cmp a b \<le> 0 \<or> cmp b a \<le> 0"
  unfolding consistent_on_def by (metis linorder_not_less order_less_imp_le)

lemma consistent_trans:
  "consistent_on A cmp \<Longrightarrow> a \<in> A \<Longrightarrow> b \<in> A \<Longrightarrow> c \<in> A
     \<Longrightarrow> cmp a b \<le> 0 \<Longrightarrow> cmp b c \<le> 0 \<Longrightarrow> cmp a c \<le> 0"
  unfolding consistent_on_def by blast

lemma consistent_flip:
  "consistent_on A cmp \<Longrightarrow> a \<in> A \<Longrightarrow> b \<in> A \<Longrightarrow> (0 \<le> cmp a b) = (cmp b a \<le> 0)"
  unfolding consistent_on_def by (metis linorder_not_less)

lemma consistent_subset: "consistent_on A cmp \<Longrightarrow> B \<subseteq> A \<Longrightarrow> consistent_on B cmp"
  unfolding consistent_on_def by blast

lemma sorted_insort_cmp:
  assumes "consistent_on A cmp" "x \<in> A" "set ys \<subseteq> A"
    and "sorted_wrt (\<lambda>a b. cmp a b \<le> 0) ys"
  shows "sorted_wrt (\<lambda>a b. cmp a b \<le> 0) (insort_cmp cmp x ys)"
  using assms(3,4)
proof (induction ys)
  case Nil
  show ?case by simp
next
  case (Cons y ys)
  show ?case
  proof (cases "cmp x y \<le> 0")
    case True
    have "cmp x z \<le> 0" if "z \<in> set ys" for z
      using consistent_trans[OF assms(1) assms(2), of y z] True Cons.prems that by auto
    with True Cons.prems show ?thesis by auto
  next
    case False
    then have "cmp y x \<le> 0"
      using consistent_total[OF assms(1) assms(2), of y] Cons.prems by auto
    with False Cons show ?thesis by (auto simp: set_insort_cmp)
  qed
qed

lemma sorted_sort_cmp:
  assumes "consistent_on A cmp" "set xs \<subseteq> A"
  shows "sorted_wrt (\<lambda>a b. cmp a b \<le> 0) (sort_cmp cmp xs)"
  using assms(2)
proof (induction xs)
  case Nil
  show ?case by (simp add: sort_cmp_Nil)
next
  case (Cons x xs)
  then show ?case
    using sorted_insort_cmp[OF assms(1), of x "sort_cmp cmp xs"]
    by (simp add: sort_cmp_Cons set_sort_cmp)
qed

lemma insort_cmp_least:
  "\<forall>y\<in>set ys. cmp x y \<le> 0 \<Longrightarrow> insort_cmp cmp x ys = x # ys"
  by (cases ys) auto

lemma sort_cmp_sorted_id:
  "sorted_wrt (\<lambda>a b. cmp a b \<le> 0) xs \<Longrightarrow> sort_cmp cmp xs = xs"
  by (induction xs) (auto simp: sort_cmp_Nil sort_cmp_Cons insort_cmp_least)







subsection \<open>The two comparators\<close>

lemma sort_compare_asc: "sort_compare env f False a b = check_compare env f a b"
  by (simp add: sort_compare_def check_compare_def Let_def split: jsval.splits)

lemma sort_compare_desc:
  "sort_compare env f True a b =
     (if get_field a f = JNull \<or> get_field b f = JNull then check_compare env f a b
      else - check_compare env f a b)"
  by (simp add: sort_compare_def check_compare_def Let_def split: jsval.splits)

lemma check_compare_missing:
  "get_field b f = JNull \<Longrightarrow> check_compare env f a b \<le> 0"
  "get_field a f = JNull \<Longrightarrow> get_field b f \<noteq> JNull \<Longrightarrow> check_compare env f a b = 1"
  "get_field a f \<noteq> JNull \<Longrightarrow> get_field b f = JNull \<Longrightarrow> check_compare env f a b = - 1"
  "get_field a f = JNull \<Longrightarrow> get_field b f = JNull \<Longrightarrow> check_compare env f a b = 0"
  by (simp_all add: check_compare_def Let_def)

lemma desc_le_iff:
  assumes "consistent_on A (check_compare env f)" "a \<in> A" "b \<in> A"
  shows "(sort_compare env f True a b \<le> 0) =
           (get_field b f = JNull \<or> (get_field a f \<noteq> JNull \<and> check_compare env f b a \<le> 0))"
proof (cases "get_field b f = JNull")
  case True
  then show ?thesis by (simp add: sort_compare_desc check_compare_missing(1))
next
  case nb: False
  show ?thesis
  proof (cases "get_field a f = JNull")
    case True
    with nb show ?thesis by (simp add: sort_compare_desc check_compare_missing(2))
  next
    case False
    with nb show ?thesis
      using consistent_flip[OF assms] by (simp add: sort_compare_desc)
  qed
qed

lemma consistent_desc:
  assumes c: "consistent_on A (check_compare env f)"
  shows "consistent_on A (sort_compare env f True)"
  unfolding consistent_on_def
proof (intro conjI ballI impI)
  fix a b assume a: "a \<in> A" and b: "b \<in> A"
  have "(check_compare env f a b < 0) = (0 < check_compare env f b a)"
    "(check_compare env f b a < 0) = (0 < check_compare env f a b)"
    using c a b unfolding consistent_on_def by blast+
  then show "(sort_compare env f True a b < 0) = (0 < sort_compare env f True b a)"
    by (auto simp: sort_compare_desc)
next
  fix a b d assume a: "a \<in> A" and b: "b \<in> A" and d: "d \<in> A"
    and le: "sort_compare env f True a b \<le> 0 \<and> sort_compare env f True b d \<le> 0"
  show "sort_compare env f True a d \<le> 0"
  proof (cases "get_field d f = JNull")
    case True
    then show ?thesis by (simp add: desc_le_iff[OF c a d])
  next
    case nd: False
    from le have bd: "get_field b f \<noteq> JNull \<and> check_compare env f d b \<le> 0"
      using nd desc_le_iff[OF c b d] by simp
    with le have ab: "get_field a f \<noteq> JNull \<and> check_compare env f b a \<le> 0"
      using desc_le_iff[OF c a b] by simp
    have "check_compare env f d a \<le> 0"
      using consistent_trans[OF c d b a] bd ab by blast
    with ab show ?thesis by (simp add: desc_le_iff[OF c a d])
  qed
qed


lemma descending_by_iff:
  assumes "consistent_on A (check_compare env f)" "set ds \<subseteq> A"
  shows "descending_by env f ds = sorted_wrt (\<lambda>a b. sort_compare env f True a b \<le> 0) ds"
  unfolding descending_by_def
proof (rule iffI)
  assume "sorted_wrt (\<lambda>a b. get_field b f = JNull \<or> get_field a f \<noteq> JNull \<and> check_compare env f b a \<le> 0) ds"
  then show "sorted_wrt (\<lambda>a b. sort_compare env f True a b \<le> 0) ds"
    by (rule sorted_wrt_mono_rel[rotated]) (use assms desc_le_iff in blast)
next
  assume "sorted_wrt (\<lambda>a b. sort_compare env f True a b \<le> 0) ds"
  then show "sorted_wrt (\<lambda>a b. get_field b f = JNull \<or> get_field a f \<noteq> JNull \<and> check_compare env f b a \<le> 0) ds"
    by (rule sorted_wrt_mono_rel[rotated]) (use assms desc_le_iff in blast)
qed

text \<open>The sort of a consistent list, in either direction.\<close>

lemma sort_by_direction:
  assumes c: "consistent_on A (check_compare env f)" and sub: "set ds \<subseteq> A"
  shows "if dir then descending_by env f (sort_cmp (sort_compare env f dir) ds)
         else ascending_by env f (sort_cmp (sort_compare env f dir) ds)"
proof (cases dir)
  case True
  have "sorted_wrt (\<lambda>a b. sort_compare env f True a b \<le> 0) (sort_cmp (sort_compare env f True) ds)"
    by (rule sorted_sort_cmp[OF consistent_desc[OF c] sub])
  with True show ?thesis
    using descending_by_iff[OF c, of "sort_cmp (sort_compare env f True) ds"] sub
    by (simp add: set_sort_cmp)
next
  case False
  have eq: "sort_compare env f False = check_compare env f"
    by (intro ext) (rule sort_compare_asc)
  have "sorted_wrt (\<lambda>a b. check_compare env f a b \<le> 0) (sort_cmp (check_compare env f) ds)"
    by (rule sorted_sort_cmp[OF c sub])
  with False show ?thesis by (simp add: eq ascending_by_def)
qed

lemma ascending_iff_fixed:
  assumes c: "consistent_on A (check_compare env f)" and sub: "set ds \<subseteq> A"
  shows "(sort_cmp (check_compare env f) ds = ds) = ascending_by env f ds"
  unfolding ascending_by_def
  using sorted_sort_cmp[OF c sub] sort_cmp_sorted_id[of "check_compare env f" ds] by auto

subsection \<open>Arrays of expanded documents\<close>

lemma those_map_Some: "those (map Some ds) = Some ds"
  by (induction ds) auto

lemma array_sort_Some: "array_sort cmp (map Some ds) = Returned (map Some (sort_cmp cmp ds))"
proof (cases "length ds < 2")
  case True
  then consider "ds = []" | d where "ds = [d]"
    by (cases ds; cases "tl ds") auto
  then show ?thesis
    by cases (auto simp: array_sort_def sort_cmp_def)
next
  case False
  then show ?thesis by (simp add: array_sort_def those_map_Some)
qed

lemma check_sets_flag:
  assumes "ds \<noteq> []"
  shows "checkAlreadySorted env f (Returned (Some (map Some ds))) st
           = st\<lparr>alreadySorted := (sort_cmp (check_compare env f) ds = ds)\<rparr>"
  using assms
  by (simp add: checkAlreadySorted_def getSortData_def array_sort_Some inj_map_eq_map)

lemma refMap_snoc: "refMap (xs @ [x]) = (refMap xs)(r_ref x \<mapsto> x)"
  by (simp add: refMap_def)

lemma refMap_distinct:
  "distinct (map r_ref xs) \<Longrightarrow> r \<in> set xs \<Longrightarrow> refMap xs (r_ref r) = Some r"
proof (induction xs rule: rev_induct)
  case Nil
  then show ?case by simp
next
  case (snoc x xs)
  show ?case
  proof (cases "r = x")
    case True
    then show ?thesis by (simp add: refMap_snoc)
  next
    case False
    with snoc.prems have rin: "r \<in> set xs" by auto
    from snoc.prems have "r_ref x \<notin> r_ref ` set xs" by simp
    with rin have "r_ref r \<noteq> r_ref x" by (metis imageI)
    note rin this
    with snoc show ?thesis by (simp add: refMap_snoc)
  qed
qed

subsection \<open>The committed list\<close>

lemma expands_to_length: "expands_to store refs docs \<Longrightarrow> length refs = length docs"
  unfolding expands_to_def expand_def by (metis length_map)

lemma expands_to_nth:
  assumes "expands_to store refs docs" "j < length docs"
  shows "store (r_ref (refs ! j)) = Some (docs ! j)"
    and "get_field (docs ! j) ''_id'' = JStr (r_ref (refs ! j))"
    and "length refs = length docs"
proof -
  from assms(1) have e: "map (\<lambda>r. store (r_ref r)) refs = map Some docs"
    and i: "map (\<lambda>d. get_field d ''_id'') docs = map (\<lambda>r. JStr (r_ref r)) refs"
    by (simp_all add: expands_to_def expand_def)
  from e show len: "length refs = length docs" by (metis length_map)
  from e assms(2) len show "store (r_ref (refs ! j)) = Some (docs ! j)"
    by (metis nth_map)
  from i assms(2) len show "get_field (docs ! j) ''_id'' = JStr (r_ref (refs ! j))"
    by (metis nth_map)
qed

lemma organize_sorted:
  assumes d: "distinct (map r_ref refs)" and e: "expands_to store refs docs"
    and m: "mset ds = mset docs"
  shows "\<exists>committed. organize (refMap refs) (map Some ds) = Returned committed
           \<and> expands_to store committed ds \<and> mset committed = mset refs"
proof -
  define g where "g = (\<lambda>dc. case get_field dc ''_id'' of JStr i \<Rightarrow> the (refMap refs i))"
  have at: "g (docs ! j) = refs ! j" if "j < length docs" for j
    using expands_to_nth[OF e that] refMap_distinct[OF d, of "refs ! j"] that
    by (simp add: g_def)
  have pt: "get_field dc ''_id'' = JStr (r_ref (g dc)) \<and> store (r_ref (g dc)) = Some dc
            \<and> refMap refs (r_ref (g dc)) = Some (g dc)" if "dc \<in> set docs" for dc
  proof -
    from that obtain j where j: "j < length docs" "dc = docs ! j"
      by (metis in_set_conv_nth)
    then show ?thesis
      using expands_to_nth[OF e j(1)] at[OF j(1)] refMap_distinct[OF d, of "refs ! j"]
      by simp
  qed
  have sub: "set ds \<subseteq> set docs" using m by (metis set_mset_mset subset_refl)
  have org: "set xs \<subseteq> set docs \<Longrightarrow> organize (refMap refs) (map Some xs) = Returned (map g xs)" for xs
  proof (induction xs)
    case Nil
    show ?case by simp
  next
    case (Cons x xs)
    then show ?case using pt[of x] by simp
  qed
  have "map g docs = refs"
    using at expands_to_length[OF e] by (intro nth_equalityI) auto
  then have "mset refs = image_mset g (mset docs)" by (metis mset_map)
  then have ms: "mset (map g ds) = mset refs" using m by simp
  have "expands_to store (map g ds) ds"
    using sub pt by (auto simp: expands_to_def expand_def)
  with org[OF sub] ms show ?thesis by blast
qed

lemma sortAllReferences_sorted:
  assumes "refs \<noteq> []" "sortDataType st \<noteq> []" "distinct (map r_ref refs)"
    and e: "expands_to store refs docs"
  shows "\<exists>committed. sortAllReferences env (Some refs) (Returned (Some (expand store refs))) st
            = (Some (Set_patch committed), st\<lparr>isSorting := False, error := None\<rparr>)
         \<and> expands_to store committed
              (sort_cmp (sort_compare env (sortDataType st) (alreadySorted st)) docs)
         \<and> mset committed = mset refs"
proof -
  let ?ds = "sort_cmp (sort_compare env (sortDataType st) (alreadySorted st)) docs"
  from e have ex: "expand store refs = map Some docs" by (simp add: expands_to_def)
  with assms(1) have ne: "map Some docs \<noteq> []" by (auto simp: expand_def)
  obtain committed where c: "organize (refMap refs) (map Some ?ds) = Returned committed"
    "expands_to store committed ?ds" "mset committed = mset refs"
    using organize_sorted[OF assms(3) e, of ?ds] by (auto simp: mset_sort_cmp)
  have "sortAllReferences env (Some refs) (Returned (Some (expand store refs))) st
            = (Some (Set_patch committed), st\<lparr>isSorting := False, error := None\<rparr>)"
    using assms(1,2) ne c(1)
    by (simp add: sortAllReferences_def value_list_def getSortData_def ex array_sort_Some Let_def)
  with c show ?thesis by blast
qed

lemmas sample_defs = doc_a_def doc_b_def doc_c_def doc_d_def products_def more_products_def
  by_price_def idle_def ref_of_def plain_env_def never_less_def

lemmas sort_eval = sortAllReferences_def checkAlreadySorted_def getSortData_def array_sort_def
  sort_cmp_def sort_compare_def check_compare_def get_field_def refMap_def value_list_def
  expand_def Let_def

text \<open>
  Claim C3, as the code has it. For a list without duplicates whose references all have
  documents, a selected field and a comparator that is consistent on these documents:
  the sort commits a rearrangement of the list, in descending order when the flag
  \<open>alreadySorted\<close> of the state is set and in ascending order when it is not. The flag
  alone decides. A check that runs on the list sets the flag exactly when the list is
  ascending.
\<close>

theorem sort_follows_flag:
  assumes "refs \<noteq> []" "sortDataType st \<noteq> []" "distinct (map r_ref refs)"
    and "expands_to store refs docs"
    and "consistent_on (set docs) (check_compare env (sortDataType st))"
  shows "(\<exists>committed ds.
            fst (sortAllReferences env (Some refs) (Returned (Some (expand store refs))) st)
              = Some (Set_patch committed)
          \<and> mset committed = mset refs
          \<and> expands_to store committed ds
          \<and> (if alreadySorted st then descending_by env (sortDataType st) ds
              else ascending_by env (sortDataType st) ds))
       \<and> alreadySorted (checkAlreadySorted env (sortDataType st)
            (Returned (Some (expand store refs))) st') = ascending_by env (sortDataType st) docs"
proof
  let ?ds = "sort_cmp (sort_compare env (sortDataType st) (alreadySorted st)) docs"
  obtain committed where
    "sortAllReferences env (Some refs) (Returned (Some (expand store refs))) st
            = (Some (Set_patch committed), st\<lparr>isSorting := False, error := None\<rparr>)"
    "expands_to store committed ?ds" "mset committed = mset refs"
    using sortAllReferences_sorted[OF assms(1-4)] by blast
  moreover have "if alreadySorted st then descending_by env (sortDataType st) ?ds
              else ascending_by env (sortDataType st) ?ds"
    by (rule sort_by_direction[OF assms(5)]) simp
  ultimately show "\<exists>committed ds.
            fst (sortAllReferences env (Some refs) (Returned (Some (expand store refs))) st)
              = Some (Set_patch committed)
          \<and> mset committed = mset refs
          \<and> expands_to store committed ds
          \<and> (if alreadySorted st then descending_by env (sortDataType st) ds
              else ascending_by env (sortDataType st) ds)"
    by (metis fst_conv)
next
  from assms(4) have ex: "expand store refs = map Some docs" by (simp add: expands_to_def)
  with assms(1) have "docs \<noteq> []" by (auto simp: expand_def)
  then show "alreadySorted (checkAlreadySorted env (sortDataType st)
            (Returned (Some (expand store refs))) st') = ascending_by env (sortDataType st) docs"
    using ascending_iff_fixed[OF assms(5), of docs]
    by (simp add: ex check_sets_flag)
qed

theorem sort_follows_flag_witness:
  "[ref_of ''kb'' ''b'', ref_of ''ka'' ''a''] \<noteq> []
   \<and> sortDataType (by_price\<lparr>alreadySorted := True\<rparr>) \<noteq> []
   \<and> distinct (map r_ref [ref_of ''kb'' ''b'', ref_of ''ka'' ''a''])
   \<and> expands_to products [ref_of ''kb'' ''b'', ref_of ''ka'' ''a''] [doc_b, doc_a]
   \<and> consistent_on (set [doc_b, doc_a]) (check_compare plain_env ''price'')
   \<and> (\<exists>committed ds.
         fst (sortAllReferences plain_env (Some [ref_of ''kb'' ''b'', ref_of ''ka'' ''a''])
                (Returned (Some (expand products [ref_of ''kb'' ''b'', ref_of ''ka'' ''a''])))
                (by_price\<lparr>alreadySorted := True\<rparr>))
           = Some (Set_patch committed)
       \<and> mset committed = mset [ref_of ''kb'' ''b'', ref_of ''ka'' ''a'']
       \<and> expands_to products committed ds
       \<and> descending_by plain_env ''price'' ds)"
proof -
  let ?refs = "[ref_of ''kb'' ''b'', ref_of ''ka'' ''a'']"
  let ?st = "by_price\<lparr>alreadySorted := True\<rparr>"
  have h1: "?refs \<noteq> []" by simp
  have h2: "sortDataType ?st \<noteq> []" by (simp add: by_price_def)
  have h3: "distinct (map r_ref ?refs)" by (simp add: ref_of_def)
  have h4: "expands_to products ?refs [doc_b, doc_a]"
    by (simp add: expands_to_def expand_def get_field_def sample_defs)
  have h5: "consistent_on (set [doc_b, doc_a]) (check_compare plain_env (sortDataType ?st))"
    by (simp add: consistent_on_def check_compare_def get_field_def sample_defs)
  have f: "sortDataType ?st = ''price''" "alreadySorted ?st" by (simp_all add: by_price_def)
  from sort_follows_flag[OF h1 h2 h3 h4 h5] f h1 h2 h3 h4 h5 show ?thesis by auto
qed

text \<open>
  The flag is a state cell: the check writes it on entering the sort mode and one second
  after a sort, and nothing rewrites it when another field is selected or before the
  check has answered. With the flag unset and a list that is ascending, the sort commits
  the ascending order again, not the descending one.
\<close>

theorem stale_flag_counterexample:
  "ascending_by plain_env ''price'' [doc_b, doc_a]
   \<and> \<not> descending_by plain_env ''price'' [doc_b, doc_a]
   \<and> expand products [ref_of ''kb'' ''b'', ref_of ''ka'' ''a''] = [Some doc_b, Some doc_a]
   \<and> \<not> alreadySorted by_price
   \<and> fst (sortAllReferences plain_env (Some [ref_of ''kb'' ''b'', ref_of ''ka'' ''a''])
            (Returned (Some (expand products [ref_of ''kb'' ''b'', ref_of ''ka'' ''a''])))
            by_price)
       = Some (Set_patch [ref_of ''kb'' ''b'', ref_of ''ka'' ''a''])"
  by (simp add: ascending_by_def descending_by_def sample_defs sort_eval)

subsection \<open>Documents without the field\<close>

lemma sort_compare_missing:
  "get_field a f = JNull \<Longrightarrow> get_field b f \<noteq> JNull \<Longrightarrow> sort_compare env f dir a b = 1"
  "get_field a f \<noteq> JNull \<Longrightarrow> get_field b f = JNull \<Longrightarrow> sort_compare env f dir a b = - 1"
  by (simp_all add: sort_compare_def Let_def)

lemma trails_trans: "trails f x y \<Longrightarrow> trails f y z \<Longrightarrow> trails f x z"
  unfolding trails_def by metis

lemma trails_le: "sort_compare env f dir x y \<le> 0 \<Longrightarrow> trails f x y"
  unfolding trails_def using sort_compare_missing(1)[of x f y env dir] by fastforce

lemma trails_gt: "\<not> sort_compare env f dir x y \<le> 0 \<Longrightarrow> trails f y x"
  unfolding trails_def using sort_compare_missing(2)[of x f y env dir] by fastforce

lemma trails_insort:
  "sorted_wrt (trails f) ys \<Longrightarrow> sorted_wrt (trails f) (insort_cmp (sort_compare env f dir) x ys)"
proof (induction ys)
  case Nil
  show ?case by simp
next
  case (Cons y ys)
  show ?case
  proof (cases "sort_compare env f dir x y \<le> 0")
    case True
    then have xy: "trails f x y" by (rule trails_le)
    have "\<forall>z\<in>set ys. trails f x z"
      using Cons.prems trails_trans[OF xy] by simp
    with xy Cons.prems True show ?thesis by simp
  next
    case False
    then have "trails f y x" by (rule trails_gt)
    with False Cons show ?thesis by (simp add: set_insort_cmp)
  qed
qed

lemma missing_last_sort: "missing_last f (sort_cmp (sort_compare env f dir) ds)"
  unfolding missing_last_def
  by (induction ds) (simp_all add: sort_cmp_Nil sort_cmp_Cons trails_insort)

text \<open>
  Claim C4. In both comparators and for both directions, a document without the field
  (\<open>null\<close> or absent) compares greater than a document with it, and two strings compare
  as \<open>localeCompare\<close> orders them, negated for the descending direction. In every
  sorted list the documents without the field are behind all others. The documents
  \<open>a\<close> (price 30), \<open>b\<close> (price 10) and \<open>c\<close> (price \<open>null\<close>) are committed as \<open>[b, a, c]\<close>
  by an ascending sort and as \<open>[a, b, c]\<close> by a descending sort.
\<close>

theorem missing_field_sorts_last:
  "(get_field a f = JNull \<and> get_field b f \<noteq> JNull \<longrightarrow>
      0 < sort_compare env f dir a b \<and> sort_compare env f dir b a < 0
      \<and> 0 < check_compare env f a b \<and> check_compare env f b a < 0)
   \<and> (get_field a f = JStr s \<and> get_field b f = JStr t \<longrightarrow>
        check_compare env f a b = localeCompare env s t
        \<and> sort_compare env f dir a b = (if dir then - 1 else 1) * localeCompare env s t)
   \<and> missing_last f (sort_cmp (sort_compare env f dir) ds)
   \<and> fst (sortAllReferences env (Some [ref_of ''ka'' ''a'', ref_of ''kb'' ''b'', ref_of ''kc'' ''c''])
        (Returned (Some [Some doc_a, Some doc_b, Some doc_c])) (by_price\<lparr>alreadySorted := False\<rparr>))
       = Some (Set_patch [ref_of ''kb'' ''b'', ref_of ''ka'' ''a'', ref_of ''kc'' ''c''])
   \<and> fst (sortAllReferences env (Some [ref_of ''kb'' ''b'', ref_of ''ka'' ''a'', ref_of ''kc'' ''c''])
        (Returned (Some [Some doc_b, Some doc_a, Some doc_c])) (by_price\<lparr>alreadySorted := True\<rparr>))
       = Some (Set_patch [ref_of ''ka'' ''a'', ref_of ''kb'' ''b'', ref_of ''kc'' ''c''])"
proof (intro conjI impI)
  show "missing_last f (sort_cmp (sort_compare env f dir) ds)" by (rule missing_last_sort)
next
  assume h: "get_field a f = JNull \<and> get_field b f \<noteq> JNull"
  from h show "0 < sort_compare env f dir a b" by (simp add: sort_compare_missing)
  from h show "sort_compare env f dir b a < 0" by (simp add: sort_compare_missing)
  from h show "0 < check_compare env f a b" by (simp add: check_compare_missing)
  from h show "check_compare env f b a < 0" by (simp add: check_compare_missing)
next
  assume h: "get_field a f = JStr s \<and> get_field b f = JStr t"
  from h show "check_compare env f a b = localeCompare env s t"
    by (simp add: check_compare_def)
  from h show "sort_compare env f dir a b = (if dir then - 1 else 1) * localeCompare env s t"
    by (simp add: sort_compare_def)
next
  show "fst (sortAllReferences env (Some [ref_of ''ka'' ''a'', ref_of ''kb'' ''b'', ref_of ''kc'' ''c''])
        (Returned (Some [Some doc_a, Some doc_b, Some doc_c])) (by_price\<lparr>alreadySorted := False\<rparr>))
       = Some (Set_patch [ref_of ''kb'' ''b'', ref_of ''ka'' ''a'', ref_of ''kc'' ''c''])"
    by (simp add: sort_eval doc_a_def doc_b_def doc_c_def by_price_def idle_def ref_of_def)
next
  show "fst (sortAllReferences env (Some [ref_of ''kb'' ''b'', ref_of ''ka'' ''a'', ref_of ''kc'' ''c''])
        (Returned (Some [Some doc_b, Some doc_a, Some doc_c])) (by_price\<lparr>alreadySorted := True\<rparr>))
       = Some (Set_patch [ref_of ''ka'' ''a'', ref_of ''kb'' ''b'', ref_of ''kc'' ''c''])"
    by (simp add: sort_eval doc_a_def doc_b_def doc_c_def by_price_def idle_def ref_of_def)
qed

theorem missing_field_sorts_last_witness:
  "get_field doc_c ''price'' = JNull \<and> get_field doc_a ''price'' \<noteq> JNull
   \<and> 0 < sort_compare plain_env ''price'' True doc_c doc_a
   \<and> 0 < sort_compare plain_env ''price'' False doc_c doc_a
   \<and> get_field doc_a ''_id'' = JStr ''a'' \<and> get_field doc_b ''_id'' = JStr ''b''
   \<and> check_compare plain_env ''_id'' doc_a doc_b = - 1
   \<and> sort_compare plain_env ''_id'' True doc_a doc_b = 1"
proof -
  have n: "get_field doc_c ''price'' = JNull \<and> get_field doc_a ''price'' \<noteq> JNull"
    by (simp add: get_field_def doc_a_def doc_c_def)
  have s: "get_field doc_a ''_id'' = JStr ''a'' \<and> get_field doc_b ''_id'' = JStr ''b''"
    by (simp add: get_field_def doc_a_def doc_b_def)
  have l: "localeCompare plain_env ''a'' ''b'' = - 1"
    by (simp add: plain_env_def)
  note t = missing_field_sorts_last[where a=doc_c and f="''price''" and b=doc_a and env=plain_env and dir=True]
  note f = missing_field_sorts_last[where a=doc_c and f="''price''" and b=doc_a and env=plain_env and dir=False]
  note i = missing_field_sorts_last[where a=doc_a and f="''_id''" and b=doc_b and s="''a''" and t="''b''"
      and env=plain_env and dir=True]
  from t n have "0 < sort_compare plain_env ''price'' True doc_c doc_a" by blast
  moreover from f n have "0 < sort_compare plain_env ''price'' False doc_c doc_a" by blast
  moreover from i s have "check_compare plain_env ''_id'' doc_a doc_b = localeCompare plain_env ''a'' ''b''"
    by blast
  moreover from i s have "sort_compare plain_env ''_id'' True doc_a doc_b
      = (if True then - 1 else 1) * localeCompare plain_env ''a'' ''b''"
    by blast
  ultimately show ?thesis using n s l by simp
qed

subsection \<open>No documents\<close>

lemma sort_button_enabled_guard:
  "sort_button_enabled val st \<Longrightarrow> value_list val \<noteq> [] \<and> sortDataType st \<noteq> []"
  by (simp add: sort_button_enabled_def)

text \<open>
  Claim C6. The sort runs when its button is clicked, and the button is enabled only
  for a list that is not empty and a selected field. In every such run, when the
  documents cannot be fetched or the fetch yields none, nothing is committed, the list
  stays as it is, and the error "No data available for sorting." is set.
\<close>

theorem no_commit_without_documents:
  assumes "sort_button_enabled val st" and "getSortData fetched = []"
  shows "fst (sortAllReferences env val fetched st) = None
       \<and> apply_patch (fst (sortAllReferences env val fetched st)) val = val
       \<and> error (snd (sortAllReferences env val fetched st))
           = Some ''No data available for sorting.''"
  using assms(2) sort_button_enabled_guard[OF assms(1)]
  by (simp add: sortAllReferences_def Let_def)

theorem no_commit_without_documents_witness:
  "sort_button_enabled (Some [ref_of ''ka'' ''a'']) by_price
   \<and> getSortData Threw = []
   \<and> fst (sortAllReferences plain_env (Some [ref_of ''ka'' ''a'']) Threw by_price) = None
   \<and> error (snd (sortAllReferences plain_env (Some [ref_of ''ka'' ''a'']) Threw by_price))
       = Some ''No data available for sorting.''"
proof -
  have b: "sort_button_enabled (Some [ref_of ''ka'' ''a'']) by_price"
    by (simp add: sort_button_enabled_def value_list_def by_price_def idle_def)
  have g: "getSortData Threw = []" by (simp add: getSortData_def)
  from no_commit_without_documents[OF b g, of plain_env] b g show ?thesis by blast
qed

text \<open>
  Claim C9, as the code has it. The check reads the documents that the fetch yields.
  When the fetch yields one document, as it does for a list of one reference that is
  fetched without failure, the check sets the flag. When the fetch yields none, for an
  empty list or because it fails, the check returns at once and the flag keeps its
  value.
\<close>

theorem single_document_is_sorted:
  "(length (getSortData fetched) = 1 \<longrightarrow>
      alreadySorted (checkAlreadySorted env f fetched st) = True)
   \<and> alreadySorted (checkAlreadySorted env f (Returned (Some (expand store [r]))) st) = True
   \<and> (getSortData fetched = [] \<longrightarrow> checkAlreadySorted env f fetched st = st)
   \<and> checkAlreadySorted env f Threw st = st"
  by (simp add: checkAlreadySorted_def array_sort_def getSortData_def expand_def Let_def)

theorem single_document_is_sorted_witness:
  "length (getSortData (Returned (Some [Some doc_a]))) = 1
   \<and> alreadySorted (checkAlreadySorted plain_env ''price'' (Returned (Some [Some doc_a])) by_price)"
proof -
  have l: "length (getSortData (Returned (Some [Some doc_a]))) = 1"
    by (simp add: getSortData_def)
  from single_document_is_sorted[of "Returned (Some [Some doc_a])" plain_env "''price''" by_price] l
  show ?thesis by blast
qed

text \<open>The flag is unset at first, and a check of an empty list leaves it unset.\<close>

theorem empty_list_not_reported_sorted_counterexample:
  "length (getSortData (Returned (Some (expand products [])))) = 0
   \<and> \<not> alreadySorted (checkAlreadySorted plain_env ''price''
         (Returned (Some (expand products []))) by_price)"
  by (simp add: checkAlreadySorted_def getSortData_def expand_def by_price_def idle_def)

subsection \<open>Sorting twice\<close>







end
